theory Spec2Isabelle
  imports Complex_Main "HOL-Library.Sublist" "HOL-Library.AList" "HOL-Library.Char_ord" "HOL-Library.List_Lexorder"
begin

section \<open>Text and the character tables of Python\<close>

text \<open>
  The scripts of \<^verbatim>\<open>src/scripts\<close> work on Python \<^verbatim>\<open>str\<close> values: sequences of Unicode
  code points. A text is the list of its code points; \<open>str_of\<close> writes the text of a
  literal of the source, whose characters are ASCII.
\<close>

type_synonym code_point = nat

type_synonym str = "code_point list"

definition str_of :: "string \<Rightarrow> str" where
  "str_of literal = map of_char literal"

text \<open>
  What Python knows of a code point it reads from the Unicode character database, which
  is data of the interpreter and not of the repository. The functions below take these
  tables as their first argument \<open>u\<close>, and what is proved of them holds for every table:
  \<^item> \<open>isspace u c\<close>: \<open>c\<close> is white space, the class \<^verbatim>\<open>\s\<close> of \<^verbatim>\<open>re\<close>;
  \<^item> \<open>isdecimal u c\<close>: \<open>c\<close> is a decimal digit, the class \<^verbatim>\<open>\d\<close>;
  \<^item> \<open>isalnum u c\<close>: \<open>c\<close> is alphanumeric; the class \<^verbatim>\<open>\w\<close> is these and the underscore;
  \<^item> \<open>ignorecase u c\<close>: the code points that \<open>c\<close> is equal to under \<^verbatim>\<open>re.IGNORECASE\<close>
    (for \<^verbatim>\<open>k\<close>, among them \<^verbatim>\<open>k\<close> and \<^verbatim>\<open>K\<close>);
  \<^item> \<open>lower u s\<close>: \<^verbatim>\<open>s.lower()\<close>, a function of the whole text, which may change its
    length.
\<close>

record unicode =
  isspace :: "code_point \<Rightarrow> bool"
  isdecimal :: "code_point \<Rightarrow> bool"
  isalnum :: "code_point \<Rightarrow> bool"
  ignorecase :: "code_point \<Rightarrow> code_point list"
  lower :: "str \<Rightarrow> str"

text \<open>
  \<open>ascii\<close> has the rows of Python's tables for the code points below 128 and is used to
  compute examples, all on ASCII texts. About a code point from 128 on it says nothing
  that Python says: there it is a table like any other. \<open>ascii_agree\<close> holds of the
  tables that have the same rows for the code points below 128, as Python's have; the
  patterns of the source name code points below 256 only.
\<close>

definition ascii_lower :: "code_point \<Rightarrow> code_point" where
  "ascii_lower c = (if 65 \<le> c \<and> c \<le> 90 then c + 32 else c)"

definition ascii_upper :: "code_point \<Rightarrow> code_point" where
  "ascii_upper c = (if 97 \<le> c \<and> c \<le> 122 then c - 32 else c)"

definition ascii :: unicode where
  "ascii =
     \<lparr>isspace = (\<lambda>c. c \<in> set [9, 10, 11, 12, 13, 28, 29, 30, 31, 32]),
      isdecimal = (\<lambda>c. 48 \<le> c \<and> c \<le> 57),
      isalnum = (\<lambda>c. (48 \<le> c \<and> c \<le> 57) \<or> (65 \<le> c \<and> c \<le> 90) \<or> (97 \<le> c \<and> c \<le> 122)),
      ignorecase = (\<lambda>c. [ascii_lower c, ascii_upper c]),
      lower = map ascii_lower\<rparr>"

definition ascii_text :: "str \<Rightarrow> bool" where
  "ascii_text s = list_all (\<lambda>c. c < 128) s"

definition ascii_agree :: "unicode \<Rightarrow> bool" where
  "ascii_agree u =
     ((\<forall>c<128. isspace u c = isspace ascii c \<and> isdecimal u c = isdecimal ascii c
          \<and> isalnum u c = isalnum ascii c
          \<and> (\<forall>x<256. x \<in> set (ignorecase u c) \<longleftrightarrow> x \<in> set (ignorecase ascii c)))
      \<and> (\<forall>s. ascii_text s \<longrightarrow> lower u s = lower ascii s))"

section \<open>The token patterns of \<^verbatim>\<open>helper_functions.py\<close>\<close>

subsection \<open>Patterns as syntax trees\<close>

text \<open>
  A pattern is the tree that \<^verbatim>\<open>re.compile\<close> parses it to. Under \<^verbatim>\<open>re.VERBOSE\<close> the
  white space and the \<^verbatim>\<open>#\<close> comments of the pattern text are no part of the tree; a
  non-capturing group \<^verbatim>\<open>(?:...)\<close> is the tree of its body. All quantifiers of the
  source are greedy. The characters of a pattern are characters of the source text.
\<close>

datatype category = CATEGORY_DIGIT | CATEGORY_WORD | CATEGORY_NOT_SPACE

datatype item = LITERAL char | RANGE char char | CATEGORY category

datatype regex =
    Eps
  | Lit char
  | In "item list"
  | NotIn "item list"
  | Seq regex regex
  | Alt regex regex
  | Opt regex
  | Star regex

definition Plus :: "regex \<Rightarrow> regex" where
  "Plus r = Seq r (Star r)"

fun seqs :: "regex list \<Rightarrow> regex" where
  "seqs [] = Eps"
| "seqs [r] = r"
| "seqs (r # rs) = Seq r (seqs rs)"

fun alts :: "regex list \<Rightarrow> regex" where
  \<comment> \<open>\<^verbatim>\<open>'|'.join(...)\<close>\<close>
  "alts [] = Eps"
| "alts [r] = r"
| "alts (r # rs) = Alt r (alts rs)"

definition lits :: "string \<Rightarrow> regex" where
  "lits s = seqs (map Lit s)"

subsection \<open>Matching, with \<^verbatim>\<open>re.IGNORECASE\<close>\<close>

text \<open>
  The patterns are compiled for \<^verbatim>\<open>str\<close>, without \<^verbatim>\<open>re.ASCII\<close>, so the classes
  \<^verbatim>\<open>\d\<close>, \<^verbatim>\<open>\w\<close> and \<^verbatim>\<open>\S\<close> are those of Unicode. A class of the patterns that
  names one of them names no letter, and \<^verbatim>\<open>re\<close> tests such a class on the character as
  it stands. A character of the text matches a character of a pattern, alone or in a
  class or a range, when the two are equal with case ignored.
\<close>

fun in_category :: "unicode \<Rightarrow> code_point \<Rightarrow> category \<Rightarrow> bool" where
  "in_category u c CATEGORY_DIGIT = isdecimal u c"
| "in_category u c CATEGORY_WORD = (isalnum u c \<or> c = of_char CHR ''_'')"
| "in_category u c CATEGORY_NOT_SPACE = (\<not> isspace u c)"

fun in_item :: "unicode \<Rightarrow> code_point \<Rightarrow> item \<Rightarrow> bool" where
  "in_item u c (LITERAL x) = (of_char x \<in> set (ignorecase u c))"
| "in_item u c (RANGE a b) = list_ex (\<lambda>x. of_char a \<le> x \<and> x \<le> of_char b) (ignorecase u c)"
| "in_item u c (CATEGORY cat) = in_category u c cat"

definition in_ignore :: "unicode \<Rightarrow> code_point \<Rightarrow> item list \<Rightarrow> bool" where
  "in_ignore u c items = list_ex (in_item u c) items"

text \<open>
  The matcher of \<^verbatim>\<open>re\<close> backtracks: an alternation takes its first branch that lets the
  rest of the pattern match, a greedy quantifier takes one more repetition before it
  tries the rest. \<open>sre_match u r k s\<close> matches \<open>r\<close> at the start of \<open>s\<close> and hands what is
  left of \<open>s\<close> to the continuation \<open>k\<close>, the rest of the pattern; \<open>None\<close> is failure, after
  which the matcher takes the next choice. A repetition that consumed nothing is not
  repeated.
\<close>

function sre_match :: "unicode \<Rightarrow> regex \<Rightarrow> (str \<Rightarrow> 'a option) \<Rightarrow> str \<Rightarrow> 'a option" where
  "sre_match u Eps k s = k s"
| "sre_match u (Lit x) k s =
     (case s of [] \<Rightarrow> None | c # cs \<Rightarrow> if of_char x \<in> set (ignorecase u c) then k cs else None)"
| "sre_match u (In items) k s =
     (case s of [] \<Rightarrow> None | c # cs \<Rightarrow> if in_ignore u c items then k cs else None)"
| "sre_match u (NotIn items) k s =
     (case s of [] \<Rightarrow> None | c # cs \<Rightarrow> if in_ignore u c items then None else k cs)"
| "sre_match u (Seq a b) k s = sre_match u a (\<lambda>s'. sre_match u b k s') s"
| "sre_match u (Alt a b) k s =
     (case sre_match u a k s of Some x \<Rightarrow> Some x | None \<Rightarrow> sre_match u b k s)"
| "sre_match u (Opt a) k s =
     (case sre_match u a k s of Some x \<Rightarrow> Some x | None \<Rightarrow> k s)"
| "sre_match u (Star a) k s =
     (case sre_match u a (\<lambda>s'. if length s' < length s then sre_match u (Star a) k s' else None) s of
        Some x \<Rightarrow> Some x
      | None \<Rightarrow> k s)"
  by pat_completeness auto
termination
  by (relation "inv_image (less_than <*lex*> less_than) (\<lambda>(u, r, k, s). (size r, length s))") auto

subsection \<open>\<^verbatim>\<open>findall\<close>\<close>

text \<open>
  \<^verbatim>\<open>pattern.findall(text)\<close> scans the text from left to right: where the pattern matches,
  the matched text is a result and the scan goes on after it; where it does not, the scan
  moves on by one character. The one group of \<^verbatim>\<open>token_re\<close> spans the whole pattern, so
  the results are the matched texts. A match of no character gives the empty result and
  the scan moves on by one character.
\<close>

function findall :: "unicode \<Rightarrow> regex \<Rightarrow> str \<Rightarrow> str list" where
  "findall u r s =
     (case sre_match u r Some s of
        None \<Rightarrow> (case s of [] \<Rightarrow> [] | c # cs \<Rightarrow> findall u r cs)
      | Some rest \<Rightarrow>
          if length rest < length s then take (length s - length rest) s # findall u r rest
          else [] # (case s of [] \<Rightarrow> [] | c # cs \<Rightarrow> findall u r cs))"
  by pat_completeness auto
termination
  by (relation "measure (\<lambda>(u, r, s). length s)") auto

text \<open>
  \<open>consumes r\<close> holds when the shape of \<open>r\<close> alone shows that every match of \<open>r\<close> has a
  character.
\<close>

fun consumes :: "regex \<Rightarrow> bool" where
  "consumes Eps = False"
| "consumes (Lit x) = True"
| "consumes (In items) = True"
| "consumes (NotIn items) = True"
| "consumes (Seq a b) = (consumes a \<or> consumes b)"
| "consumes (Alt a b) = (consumes a \<and> consumes b)"
| "consumes (Opt a) = False"
| "consumes (Star a) = False"

subsection \<open>The patterns\<close>

definition emoticons_str :: regex where
  \<comment> \<open>eyes, an optional nose, a mouth\<close>
  "emoticons_str =
     seqs [In [LITERAL CHR '':'', LITERAL CHR ''='', LITERAL CHR '';''],
           Opt (In [LITERAL CHR ''o'', LITERAL CHR ''O'', LITERAL CHR ''-'']),
           In [LITERAL CHR ''D'', LITERAL CHR '')'', LITERAL CHR '']'', LITERAL CHR ''('',
               LITERAL CHR '']'', LITERAL CHR ''/'', LITERAL (CHR 0x5C), LITERAL CHR ''O'',
               LITERAL CHR ''p'', LITERAL CHR ''P'', LITERAL CHR ''d'']]"

definition word_class :: regex where
  \<comment> \<open>\<^verbatim>\<open>[\w_]\<close>\<close>
  "word_class = In [CATEGORY CATEGORY_WORD, LITERAL CHR ''_'']"

definition regex_str :: "regex list" where
  \<open>regex_str =
    [emoticons_str,
     \<comment> \<open>HTML tags: \<^verbatim>\<open><[^>]+>\<close>\<close>
     seqs [Lit CHR ''<'', Plus (NotIn [LITERAL CHR ''>'']), Lit CHR ''>''],
     \<comment> \<open>@-mentions: \<^verbatim>\<open>(?:@[\w_]+)\<close>\<close>
     seqs [Lit CHR ''@'', Plus word_class],
     \<comment> \<open>hashtags: \<^verbatim>\<open>(?:\#+[\w_]+[\w\'_\-]*[\w_]+)\<close>\<close>
     seqs [Plus (Lit CHR ''#''), Plus word_class,
           Star (In [CATEGORY CATEGORY_WORD, LITERAL (CHR 0x27), LITERAL CHR ''_'', LITERAL CHR ''-'']),
           Plus word_class],
     \<comment> \<open>URLs: \<^verbatim>\<open>http[s]?://(?:[a-z]|[0-9]|[$-_@.&amp;+]|[!*\(\),]|(?:%[0-9a-f][0-9a-f]))+\<close>\<close>
     seqs [lits ''http'', Opt (In [LITERAL CHR ''s'']), lits ''://'',
           Plus (alts [In [RANGE CHR ''a'' CHR ''z''],
                       In [RANGE CHR ''0'' CHR ''9''],
                       In [RANGE CHR ''$'' CHR ''_'', LITERAL CHR ''@'', LITERAL CHR ''.'',
                           LITERAL CHR ''&'', LITERAL CHR ''a'', LITERAL CHR ''m'',
                           LITERAL CHR ''p'', LITERAL CHR '';'', LITERAL CHR ''+''],
                       In [LITERAL CHR ''!'', LITERAL CHR ''*'', LITERAL CHR ''('',
                           LITERAL CHR '')'', LITERAL CHR '',''],
                       seqs [Lit CHR ''%'',
                             In [RANGE CHR ''0'' CHR ''9'', RANGE CHR ''a'' CHR ''f''],
                             In [RANGE CHR ''0'' CHR ''9'', RANGE CHR ''a'' CHR ''f'']]])],
     \<comment> \<open>numbers: \<^verbatim>\<open>(?:(?:\d+,?)+(?:\.?\d+)?)\<close>\<close>
     seqs [Plus (seqs [Plus (In [CATEGORY CATEGORY_DIGIT]), Opt (Lit CHR '','')]),
           Opt (seqs [Opt (Lit CHR ''.''), Plus (In [CATEGORY CATEGORY_DIGIT])])],
     \<comment> \<open>words with dashes and apostrophes: \<^verbatim>\<open>(?:[a-z][a-z\'\-_]+[a-z])\<close>\<close>
     seqs [In [RANGE CHR ''a'' CHR ''z''],
           Plus (In [RANGE CHR ''a'' CHR ''z'', LITERAL (CHR 0x27), LITERAL CHR ''-'', LITERAL CHR ''_'']),
           In [RANGE CHR ''a'' CHR ''z'']],
     \<comment> \<open>other words: \<^verbatim>\<open>(?:[\w_]+)\<close>\<close>
     Plus word_class,
     \<comment> \<open>anything else: \<^verbatim>\<open>(?:\S)\<close>\<close>
     In [CATEGORY CATEGORY_NOT_SPACE]]\<close>

definition token_re :: regex where
  \<comment> \<open>\<^verbatim>\<open>re.compile(r'(' + '|'.join(regex_str) + ')', re.VERBOSE | re.IGNORECASE)\<close>\<close>
  "token_re = alts regex_str"

definition emoticon_re_search :: "unicode \<Rightarrow> str \<Rightarrow> bool" where
  \<comment> \<open>\<^verbatim>\<open>emoticon_re.search(token)\<close> is a match, for
      \<^verbatim>\<open>emoticon_re = re.compile(r'^' + emoticons_str + '$', ...)\<close>: \<^verbatim>\<open>^\<close> holds at the
      start of the token only, \<^verbatim>\<open>$\<close> at its end and before a line feed that ends it.\<close>
  "emoticon_re_search u token =
     (sre_match u emoticons_str (\<lambda>s'. if s' = [] \<or> s' = [10] then Some () else None) token
        \<noteq> None)"

section \<open>Preprocessing: \<^verbatim>\<open>helper_functions.py\<close>\<close>

text \<open>An exception that leaves a function is a value of the function's result.\<close>

datatype error = LookupError | ValueError | KeyError | NameError | FileNotFoundError

subsection \<open>\<^verbatim>\<open>remove_stopwords\<close>\<close>

definition punctuation :: string where
  \<comment> \<open>\<^verbatim>\<open>string.punctuation\<close>\<close>
  "punctuation = ''!'' @ [CHR 0x22] @ ''#$%&'' @ [CHR 0x27] @ ''()*+,-./:;<=>?@['' @ [CHR 0x5C]
     @ '']^_'' @ [CHR 0x60] @ ''{|}~''"

text \<open>
  The English stop words are data of the NLTK corpus, not of the repository: \<open>corpus\<close> is
  what \<^verbatim>\<open>stopwords.words('english')\<close> gives once \<^verbatim>\<open>nltk.data.find\<close> and, when that
  fails, \<^verbatim>\<open>nltk.download\<close> have run: the list of words, or \<open>None\<close> when the corpus is
  still missing and the call raises \<^verbatim>\<open>LookupError\<close>.
\<close>

definition remove_stopwords :: "str list option \<Rightarrow> str list \<Rightarrow> error + str list" where
  "remove_stopwords corpus text =
     (case corpus of
        None \<Rightarrow> Inl LookupError
      | Some english \<Rightarrow>
          (let stop_list = english @ map (\<lambda>c. [of_char c]) punctuation
           in Inr (filter (\<lambda>w. w \<notin> set stop_list) text)))"

subsection \<open>\<^verbatim>\<open>check_emoticons\<close>\<close>

definition check_emoticons :: "unicode \<Rightarrow> str list \<Rightarrow> bool \<Rightarrow> str list" where
  "check_emoticons u tokens lowercase =
     (if lowercase
      then map (\<lambda>token. if emoticon_re_search u token then token else lower u token) tokens
      else tokens)"

subsection \<open>\<^verbatim>\<open>str.split\<close>\<close>

text \<open>
  \<^verbatim>\<open>s.split(sep)\<close> cuts \<open>s\<close> at the occurrences of \<open>sep\<close>, found from the left and not
  overlapping; an empty \<open>sep\<close> raises \<^verbatim>\<open>ValueError\<close>. \<open>split_from\<close> holds the piece
  read so far.
\<close>

function split_from :: "str \<Rightarrow> str \<Rightarrow> str \<Rightarrow> str list" where
  "split_from sep piece [] = [piece]"
| "split_from sep piece (c # cs) =
     (if sep \<noteq> [] \<and> prefix sep (c # cs)
      then piece # split_from sep [] (drop (length sep - 1) cs)
      else split_from sep (piece @ [c]) cs)"
  by pat_completeness auto
termination
  by (relation "measure (\<lambda>(sep, piece, s). length s)") auto

definition str_split :: "str \<Rightarrow> str \<Rightarrow> error + str list" where
  "str_split s sep = (if sep = [] then Inl ValueError else Inr (split_from sep [] s))"

subsection \<open>\<^verbatim>\<open>tokenize_data\<close>\<close>

text \<open>
  A row of the data frame has the columns \<^verbatim>\<open>type\<close> and \<^verbatim>\<open>posts\<close>; the data frame is
  the list of its rows in index order, and so is the data frame the function returns, whose
  rows are the pairs \<^verbatim>\<open>[ptype, tokenized_tweets]\<close>. The progress lines the function
  prints are not part of the model.
\<close>

record row =
  ptype :: str
  posts :: str

type_synonym token_row = "str \<times> str list"

definition tokenized_tweets :: "unicode \<Rightarrow> str list option \<Rightarrow> bool \<Rightarrow> str \<Rightarrow> error + str list" where
  \<comment> \<open>the body of the inner loop, up to the \<^verbatim>\<open>append\<close>\<close>
  "tokenized_tweets u corpus filter_stopwords tweet =
     (let tokens = findall u token_re tweet;
          tokens = check_emoticons u tokens False
      in if filter_stopwords then remove_stopwords corpus tokens else Inr tokens)"

fun tweets_loop ::
  "unicode \<Rightarrow> str list option \<Rightarrow> bool \<Rightarrow> str \<Rightarrow> token_row list \<Rightarrow> str list \<Rightarrow> error + token_row list"
where
  "tweets_loop u corpus filter_stopwords label token_list [] = Inr token_list"
| "tweets_loop u corpus filter_stopwords label token_list (tweet # tweets_split) =
     (case tokenized_tweets u corpus filter_stopwords tweet of
        Inl e \<Rightarrow> Inl e
      | Inr tokens \<Rightarrow>
          tweets_loop u corpus filter_stopwords label (token_list @ [(label, tokens)]) tweets_split)"

fun rows_loop ::
  "unicode \<Rightarrow> str list option \<Rightarrow> bool \<Rightarrow> token_row list \<Rightarrow> row list \<Rightarrow> error + token_row list"
where
  "rows_loop u corpus filter_stopwords token_list [] = Inr token_list"
| "rows_loop u corpus filter_stopwords token_list (r # df) =
     (case str_split (posts r) (str_of ''|||'') of
        Inl e \<Rightarrow> Inl e
      | Inr tweets_split \<Rightarrow>
          (case tweets_loop u corpus filter_stopwords (ptype r) token_list tweets_split of
             Inl e \<Rightarrow> Inl e
           | Inr token_list' \<Rightarrow> rows_loop u corpus filter_stopwords token_list' df))"

definition tokenize_data :: "unicode \<Rightarrow> str list option \<Rightarrow> row list \<Rightarrow> bool \<Rightarrow> error + token_row list" where
  "tokenize_data u corpus df filter_stopwords = rows_loop u corpus filter_stopwords [] df"

subsection \<open>\<^verbatim>\<open>parallelize\<close>\<close>

text \<open>
  \<^verbatim>\<open>np.array_split(ary, Nsections)\<close> for a number of sections: the first
  \<open>Ntotal mod Nsections\<close> sections have one row more than the others, and the sections
  are the slices between the running sums of the section sizes.
\<close>

fun cumsum_from :: "nat \<Rightarrow> nat list \<Rightarrow> nat list" where
  "cumsum_from acc [] = []"
| "cumsum_from acc (x # xs) = (acc + x) # cumsum_from (acc + x) xs"

definition cumsum :: "nat list \<Rightarrow> nat list" where
  "cumsum xs = cumsum_from 0 xs"

definition slice :: "'a list \<Rightarrow> nat \<Rightarrow> nat \<Rightarrow> 'a list" where
  \<comment> \<open>\<^verbatim>\<open>ary[st:end]\<close>\<close>
  "slice ary st en = take (en - st) (drop st ary)"

definition array_split :: "'a list \<Rightarrow> nat \<Rightarrow> error + 'a list list" where
  "array_split ary Nsections =
     (if Nsections = 0 then Inl ValueError
      else
        (let Ntotal = length ary;
             Neach_section = Ntotal div Nsections;
             extras = Ntotal mod Nsections;
             section_sizes = [0] @ replicate extras (Neach_section + 1)
                                 @ replicate (Nsections - extras) Neach_section;
             div_points = cumsum section_sizes
         in Inr (map (\<lambda>i. slice ary (div_points ! i) (div_points ! (i + 1))) [0..<Nsections])))"

fun pool_map :: "('a \<Rightarrow> error + 'b) \<Rightarrow> 'a list \<Rightarrow> error + 'b list" where
  \<comment> \<open>\<^verbatim>\<open>pool.map(func, iterable)\<close>: the results in the order of the arguments; an
      exception of a call is the exception of the whole\<close>
  "pool_map func [] = Inr []"
| "pool_map func (x # xs) =
     (case func x of
        Inl e \<Rightarrow> Inl e
      | Inr y \<Rightarrow> (case pool_map func xs of Inl e \<Rightarrow> Inl e | Inr ys \<Rightarrow> Inr (y # ys)))"

definition pd_concat :: "'b list list \<Rightarrow> error + 'b list" where
  "pd_concat objs = (if objs = [] then Inl ValueError else Inr (concat objs))"

definition parallelize :: "nat \<Rightarrow> ('a list \<Rightarrow> error + 'b list) \<Rightarrow> 'a list \<Rightarrow> error + 'b list" where
  \<comment> \<open>\<open>partitions\<close> is the value of \<^verbatim>\<open>cpu_count()\<close>\<close>
  "parallelize partitions func df =
     (case array_split df partitions of
        Inl e \<Rightarrow> Inl e
      | Inr df_subsets \<Rightarrow>
          (case pool_map func df_subsets of
             Inl e \<Rightarrow> Inl e
           | Inr results \<Rightarrow> pd_concat results))"

section \<open>Grid search\<close>

text \<open>
  \<^verbatim>\<open>grid_search\<close> fits a \<^verbatim>\<open>GridSearchCV\<close> of scikit-learn and reads its results. The
  fit is not code of the repository: its results are parameters of the model.
  \<open>grid_scores\<close> is \<^verbatim>\<open>gs_clf.grid_scores_\<close>, one triple (parameters, mean validation
  score, validation scores) for each combination of the grid, in the order the grid
  enumerates them (an attribute of the scikit-learn releases before 0.20, which the
  scripts are written for); \<open>cv_results\<close> is \<^verbatim>\<open>gs_clf.cv_results_\<close>. A dictionary is
  the list of its items, \<open>parameters\<close> is the grid. A score is the rational number that
  the float holds. The lines the function prints are its output; what it returns is
  \<open>None\<close>, as for every Python function that ends without \<^verbatim>\<open>return\<close>.
\<close>

type_synonym 'v grid_score = "(string \<times> 'v) list \<times> rat \<times> rat list"

datatype ('v, 'r) line = Param_line string 'v | Score_line rat | Results_line 'r

fun max_key :: "('a \<Rightarrow> 'k::linorder) \<Rightarrow> 'a list \<Rightarrow> error + 'a" where
  \<comment> \<open>\<^verbatim>\<open>max(iterable, key = ...)\<close>: a later item replaces the maximum so far when its
      key is greater\<close>
  "max_key key [] = Inl ValueError"
| "max_key key (x # xs) =
     Inr (foldl (\<lambda>max_item item. if key max_item < key item then item else max_item) x xs)"

fun print_params :: "string list \<Rightarrow> (string \<times> 'v) list \<Rightarrow> error + ('v, 'r) line list" where
  "print_params [] best_parameters = Inr []"
| "print_params (param_name # names) best_parameters =
     (case map_of best_parameters param_name of
        None \<Rightarrow> Inl KeyError
      | Some v \<Rightarrow>
          (case print_params names best_parameters of
             Inl e \<Rightarrow> Inl e
           | Inr out \<Rightarrow> Inr (Param_line param_name v # out)))"

definition grid_search ::
  "'v grid_score list \<Rightarrow> 'r \<Rightarrow> (string \<times> 'v list) list \<Rightarrow> error + ('v, 'r) line list \<times> 'x option"
where
  \<comment> \<open>\<^verbatim>\<open>helper_functions.grid_search\<close>\<close>
  "grid_search grid_scores cv_results parameters =
     (case max_key (\<lambda>x. fst (snd x)) grid_scores of
        Inl e \<Rightarrow> Inl e
      | Inr (best_parameters, score, _) \<Rightarrow>
          (case print_params (sort (map fst parameters)) best_parameters of
             Inl e \<Rightarrow> Inl e
           | Inr out \<Rightarrow> Inr (out @ [Score_line score] @ [Results_line cv_results], None)))"

definition grid_search_NLPAnalysis ::
  "'v grid_score list \<Rightarrow> (string \<times> 'v list) list \<Rightarrow> error + ('v, 'r) line list \<times> 'x option"
where
  \<comment> \<open>\<^verbatim>\<open>NLPAnalysis.grid_search\<close>: the same, without the line of the results\<close>
  "grid_search_NLPAnalysis grid_scores parameters =
     (case max_key (\<lambda>x. fst (snd x)) grid_scores of
        Inl e \<Rightarrow> Inl e
      | Inr (best_parameters, score, _) \<Rightarrow>
          (case print_params (sort (map fst parameters)) best_parameters of
             Inl e \<Rightarrow> Inl e
           | Inr out \<Rightarrow> Inr (out @ [Score_line score], None)))"

section \<open>Success rates\<close>

text \<open>
  \<open>labels\<close> and \<open>predictions\<close> are sequences of labels. Assigning the column
  \<^verbatim>\<open>predicted\<close> raises \<^verbatim>\<open>ValueError\<close> when the lengths differ. \<^verbatim>\<open>groupby('label')\<close>
  gives the labels that occur, in sorted order, each with its rows. The fraction is the
  rational number that the float rounds. Without \<open>return_results\<close> the function prints
  one line, for the \<open>name\<close> and \<open>frac\<close> the loop ended with, and returns \<open>None\<close>; the
  names are unbound when the loop had no group.
\<close>

record 'l pred_row =
  label :: 'l
  predicted :: 'l
  success :: bool

definition groupby :: "('l::linorder) pred_row list \<Rightarrow> ('l \<times> 'l pred_row list) list" where
  "groupby labels_pred =
     map (\<lambda>name. (name, filter (\<lambda>r. label r = name) labels_pred))
       (sort (remdups (map label labels_pred)))"

fun fracs_loop ::
  "('l \<times> rat) list \<times> ('l \<times> rat) option \<Rightarrow> ('l \<times> 'l pred_row list) list
     \<Rightarrow> ('l \<times> rat) list \<times> ('l \<times> rat) option"
where
  \<comment> \<open>the dictionary \<open>fracs\<close>, and the loop's \<open>name\<close> and \<open>frac\<close> once they are bound\<close>
  "fracs_loop (fracs, bound) [] = (fracs, bound)"
| "fracs_loop (fracs, bound) ((name, grp) # groups) =
     (let frac' = of_nat (length (filter success grp)) / of_nat (length grp)
      in fracs_loop (AList.update name frac' fracs, Some (name, frac')) groups)"

definition success_rates ::
  "('l::linorder) list \<Rightarrow> 'l list \<Rightarrow> bool \<Rightarrow> error + ('l \<times> rat) list \<times> ('l \<times> rat) list option"
where
  \<comment> \<open>the result: the lines printed, each a label and its rate, and the value returned\<close>
  "success_rates labels predictions return_results =
     (if length predictions \<noteq> length labels then Inl ValueError
      else
        (let labels_pred =
               map (\<lambda>(l, p). \<lparr>label = l, predicted = p, success = (p = l)\<rparr>) (zip labels predictions);
             (fracs, bound) = fracs_loop ([], None) (groupby labels_pred)
         in if return_results then Inr ([], Some fracs)
            else (case bound of None \<Rightarrow> Inl NameError | Some (name, frac') \<Rightarrow> Inr ([(name, frac')], None))))"

section \<open>The command line of \<^verbatim>\<open>NLPAnalysis.py\<close>\<close>

text \<open>
  A run of the script first executes the statements at the top of the module. Among them
  are \<^verbatim>\<open>pd.read_csv(unprocessed_data, names = columns)\<close> and
  \<^verbatim>\<open>csv.reader(open(unprocessed_data, 'rt'))\<close> on a path that is written into the script,
  which raise when that file cannot be read. \<open>module_level\<close> is the exception these
  statements end with, or \<open>None\<close> when they complete: it depends on the machine and not on
  the arguments. Then comes the block under \<^verbatim>\<open>if __name__ == '__main__'\<close>, here \<open>main\<close>,
  a function of \<^verbatim>\<open>sys.argv\<close>: it calls one function of the script or prints one line.
  What the functions do is outside the model: \<open>call a\<close> is how the function \<open>a\<close> ends, with
  the lines it printed or with its exception. The result of a run is the lines printed,
  or the exception that ended it.
\<close>

datatype action =
    Basic_output | Tokenize_data | Unique_labels_word_freq | Word_cloud
  | Initial_model | Naive_bayes_model | Linear_SVM_model | Neural_network_model

definition main :: "(action \<Rightarrow> error + string list) \<Rightarrow> str list \<Rightarrow> error + string list" where
  "main call argv =
     (if length argv = 2 then
        (if argv ! 1 = str_of ''basic'' then call Basic_output
         else if argv ! 1 = str_of ''tokenize'' then call Tokenize_data
         else if argv ! 1 = str_of ''unique'' then call Unique_labels_word_freq
         else if argv ! 1 = str_of ''cloud'' then call Word_cloud
         else if argv ! 1 = str_of ''initial'' then call Initial_model
         else if argv ! 1 = str_of ''NB'' then call Naive_bayes_model
         else if argv ! 1 = str_of ''SVM'' then call Linear_SVM_model
         else if argv ! 1 = str_of ''NN'' then call Neural_network_model
         else Inr [''Incorrect keyword; please try again.''])
      else Inr [''Incorrect number of keywords; please enter only one keyword.''])"

definition NLPAnalysis ::
  "error option \<Rightarrow> (action \<Rightarrow> error + string list) \<Rightarrow> str list \<Rightarrow> error + string list"
where
  "NLPAnalysis module_level call argv =
     (case module_level of Some e \<Rightarrow> Inl e | None \<Rightarrow> main call argv)"

text \<open>
  The script calls \<^verbatim>\<open>sys.exit\<close> nowhere, so the status of the process is the
  interpreter's: 1 when an exception ended the run, 0 when the run came to its end.
\<close>

definition exit_status :: "error + string list \<Rightarrow> nat" where
  "exit_status result = (case result of Inl e \<Rightarrow> 1 | Inr out \<Rightarrow> 0)"

definition known_keywords :: "str list" where
  \<comment> \<open>the keywords the chain of comparisons knows\<close>
  "known_keywords =
     map str_of [''basic'', ''tokenize'', ''unique'', ''cloud'', ''initial'', ''NB'', ''SVM'', ''NN'']"

section \<open>Evaluation\<close>

text \<open>
  The equation of \<open>findall\<close> holds for every text, so the simplifier uses it only where
  a proof names it.
\<close>

declare findall.simps [simp del]

lemmas ascii_tables = ascii_def ascii_lower_def ascii_upper_def str_of_def in_ignore_def

lemmas patterns = token_re_def regex_str_def emoticons_str_def word_class_def Plus_def lits_def

lemma token_re_empty: "sre_match u token_re Some [] = None"
  by (simp add: patterns)

lemma findall_token_re_empty: "findall u token_re [] = []"
  by (subst findall.simps) (simp add: token_re_empty)

lemma str_of_Nil: "str_of [] = []"
  by (simp add: str_of_def)

lemma split_empty: "str_split [] (str_of ''|||'') = Inr [[]]"
  by (simp add: str_split_def str_of_def)

section \<open>The preprocessing of a record with no posts\<close>

theorem empty_posts_counterexample:
  "tokenize_data ascii None [\<lparr>ptype = str_of ''INTJ'', posts = str_of ''''\<rparr>] False
     = Inr [(str_of ''INTJ'', [])]
   \<and> tokenize_data ascii None [\<lparr>ptype = str_of ''INTJ'', posts = str_of ''''\<rparr>] False \<noteq> Inr []"
  by (simp add: tokenize_data_def split_empty tokenized_tweets_def check_emoticons_def
        findall_token_re_empty str_of_Nil)

text \<open>
  C5, as the code has it: \<^verbatim>\<open>''.split('|||')\<close> is the list of one empty string, so a
  record whose posts are the empty string gives one pair, its label with the empty list
  of tokens, and no error (the stop words are at hand when they are asked for).
\<close>

theorem empty_posts_one_empty_pair:
  "posts r = [] \<Longrightarrow> (filter_stopwords \<longrightarrow> corpus \<noteq> None) \<Longrightarrow>
     tokenize_data u corpus [r] filter_stopwords = Inr [(ptype r, [])]"
  by (auto simp add: tokenize_data_def split_empty tokenized_tweets_def check_emoticons_def
        findall_token_re_empty remove_stopwords_def)

theorem empty_posts_one_empty_pair_witness:
  "tokenize_data ascii (Some [str_of ''the'']) [\<lparr>ptype = str_of ''ENFP'', posts = str_of ''''\<rparr>] True
     = Inr [(str_of ''ENFP'', [])]"
  using empty_posts_one_empty_pair
    [of "\<lparr>ptype = str_of ''ENFP'', posts = str_of ''''\<rparr>" True "Some [str_of ''the'']" ascii]
  by (simp add: str_of_Nil)

section \<open>The stop word filter\<close>

text \<open>
  C6: filtering what \<open>remove_stopwords\<close> returned gives the same list again; where the
  corpus is missing, both raise the same error.
\<close>

theorem remove_stopwords_idempotent:
  "(case remove_stopwords corpus tokens of
      Inl e \<Rightarrow> Inl e
    | Inr once \<Rightarrow> remove_stopwords corpus once)
   = remove_stopwords corpus tokens"
  by (cases corpus) (simp_all add: remove_stopwords_def filter_id_conv del: filter_filter)

theorem remove_stopwords_idempotent_witness:
  "remove_stopwords (Some [str_of ''the'', str_of ''a''])
       [str_of ''the'', str_of ''cat'', str_of ''!'', str_of ''a'', str_of ''cat'']
     = Inr [str_of ''cat'', str_of ''cat'']
   \<and> remove_stopwords (Some [str_of ''the'', str_of ''a'']) [str_of ''cat'', str_of ''cat'']
     = Inr [str_of ''cat'', str_of ''cat'']"
  using remove_stopwords_idempotent [of "Some [str_of ''the'', str_of ''a'']"
      "[str_of ''the'', str_of ''cat'', str_of ''!'', str_of ''a'', str_of ''cat'']"]
  by (simp add: remove_stopwords_def punctuation_def str_of_def)

section \<open>The exit status of the command line\<close>

lemma main_wrong_count:
  "length argv \<noteq> 2 \<Longrightarrow>
     main call argv = Inr [''Incorrect number of keywords; please enter only one keyword.'']"
  by (simp add: main_def)

lemma main_unknown_keyword:
  "length argv = 2 \<Longrightarrow> argv ! 1 \<notin> set known_keywords \<Longrightarrow>
     main call argv = Inr [''Incorrect keyword; please try again.'']"
  by (simp add: main_def known_keywords_def)

lemma main_known_keyword:
  "length argv = 2 \<Longrightarrow> argv ! 1 \<in> set known_keywords \<Longrightarrow> \<exists>a. main call argv = call a"
  by (simp add: main_def known_keywords_def) blast

theorem main_exit_status_counterexample:
  "NLPAnalysis None (\<lambda>a. Inr []) [str_of ''NLPAnalysis.py'', str_of ''foo'']
     = Inr [''Incorrect keyword; please try again.'']
   \<and> exit_status (NLPAnalysis None (\<lambda>a. Inr []) [str_of ''NLPAnalysis.py'', str_of ''foo'']) = 0
   \<and> NLPAnalysis None (\<lambda>a. Inr []) [str_of ''NLPAnalysis.py'']
     = Inr [''Incorrect number of keywords; please enter only one keyword.'']
   \<and> exit_status (NLPAnalysis None (\<lambda>a. Inr []) [str_of ''NLPAnalysis.py'']) = 0
   \<and> NLPAnalysis (Some FileNotFoundError) (\<lambda>a. Inr []) [str_of ''NLPAnalysis.py'', str_of ''foo'']
     = Inl FileNotFoundError"
  by (simp add: NLPAnalysis_def main_def exit_status_def str_of_def)

text \<open>
  C9, as the code has it. When the statements at the top of the module complete, a run
  with a number of arguments other than one, or with one argument that is no known
  keyword, prints its line, calls nothing and comes to its end: status 0. When they
  raise, the run ends there with their exception, whatever the arguments: status 1 and
  no line of the block. The status is other than 0 only after an exception, of those
  statements or of the function of a known keyword.
\<close>

theorem main_incorrect_keyword_exit_zero:
  "(module_level = None \<and> length argv \<noteq> 2 \<longrightarrow>
      NLPAnalysis module_level call argv
        = Inr [''Incorrect number of keywords; please enter only one keyword.'']
      \<and> exit_status (NLPAnalysis module_level call argv) = 0)
   \<and> (module_level = None \<and> length argv = 2 \<and> argv ! 1 \<notin> set known_keywords \<longrightarrow>
      NLPAnalysis module_level call argv = Inr [''Incorrect keyword; please try again.'']
      \<and> exit_status (NLPAnalysis module_level call argv) = 0)
   \<and> (module_level = Some e \<longrightarrow>
      NLPAnalysis module_level call argv = Inl e
      \<and> exit_status (NLPAnalysis module_level call argv) = 1)
   \<and> (exit_status (NLPAnalysis module_level call argv) \<noteq> 0 \<longrightarrow>
      module_level \<noteq> None
      \<or> (length argv = 2 \<and> argv ! 1 \<in> set known_keywords
          \<and> (\<exists>a e'. call a = Inl e' \<and> NLPAnalysis module_level call argv = Inl e')))"
proof (intro conjI impI)
  assume "module_level = None \<and> length argv \<noteq> 2"
  then show "NLPAnalysis module_level call argv
      = Inr [''Incorrect number of keywords; please enter only one keyword.'']"
    by (simp add: NLPAnalysis_def main_wrong_count)
  then show "exit_status (NLPAnalysis module_level call argv) = 0"
    by (simp add: exit_status_def)
next
  assume "module_level = None \<and> length argv = 2 \<and> argv ! 1 \<notin> set known_keywords"
  then show "NLPAnalysis module_level call argv = Inr [''Incorrect keyword; please try again.'']"
    by (simp add: NLPAnalysis_def main_unknown_keyword)
  then show "exit_status (NLPAnalysis module_level call argv) = 0"
    by (simp add: exit_status_def)
next
  assume "module_level = Some e"
  then show "NLPAnalysis module_level call argv = Inl e"
    by (simp add: NLPAnalysis_def)
  then show "exit_status (NLPAnalysis module_level call argv) = 1"
    by (simp add: exit_status_def)
next
  assume nz: "exit_status (NLPAnalysis module_level call argv) \<noteq> 0"
  show "module_level \<noteq> None
      \<or> (length argv = 2 \<and> argv ! 1 \<in> set known_keywords
          \<and> (\<exists>a e'. call a = Inl e' \<and> NLPAnalysis module_level call argv = Inl e'))"
  proof (cases module_level)
    case (Some e0)
    then show ?thesis by simp
  next
    case None
    then have run: "NLPAnalysis module_level call argv = main call argv"
      by (simp add: NLPAnalysis_def)
    have two: "length argv = 2"
    proof (rule ccontr)
      assume "length argv \<noteq> 2"
      from main_wrong_count [OF this, of call] nz run show False
        by (simp add: exit_status_def)
    qed
    have kw: "argv ! 1 \<in> set known_keywords"
    proof (rule ccontr)
      assume "argv ! 1 \<notin> set known_keywords"
      from main_unknown_keyword [OF two this, of call] nz run show False
        by (simp add: exit_status_def)
    qed
    from main_known_keyword [OF two kw] obtain a where a: "main call argv = call a" by blast
    from nz run a obtain e' where "call a = Inl e'"
      by (cases "call a") (auto simp add: exit_status_def)
    with a run two kw show ?thesis by auto
  qed
qed

theorem main_incorrect_keyword_exit_zero_witness:
  "NLPAnalysis None (\<lambda>a. Inl ValueError) [str_of ''NLPAnalysis.py'', str_of ''NB'', str_of ''SVM'']
     = Inr [''Incorrect number of keywords; please enter only one keyword.'']
   \<and> exit_status (NLPAnalysis None (\<lambda>a. Inl ValueError)
        [str_of ''NLPAnalysis.py'', str_of ''NB'', str_of ''SVM'']) = 0
   \<and> NLPAnalysis None (\<lambda>a. Inl ValueError) [str_of ''NLPAnalysis.py'', str_of ''nb'']
     = Inr [''Incorrect keyword; please try again.'']
   \<and> exit_status (NLPAnalysis None (\<lambda>a. Inl ValueError) [str_of ''NLPAnalysis.py'', str_of ''nb'']) = 0
   \<and> NLPAnalysis (Some FileNotFoundError) (\<lambda>a. Inl ValueError) [str_of ''NLPAnalysis.py'', str_of ''nb'']
     = Inl FileNotFoundError
   \<and> exit_status (NLPAnalysis (Some FileNotFoundError) (\<lambda>a. Inl ValueError)
        [str_of ''NLPAnalysis.py'', str_of ''nb'']) = 1
   \<and> exit_status (NLPAnalysis None (\<lambda>a. Inl ValueError) [str_of ''NLPAnalysis.py'', str_of ''NB'']) = 1"
  using main_incorrect_keyword_exit_zero [of None
      "[str_of ''NLPAnalysis.py'', str_of ''NB'', str_of ''SVM'']" "\<lambda>a. Inl ValueError" FileNotFoundError]
    main_incorrect_keyword_exit_zero [of None
      "[str_of ''NLPAnalysis.py'', str_of ''nb'']" "\<lambda>a. Inl ValueError" FileNotFoundError]
    main_incorrect_keyword_exit_zero [of "Some FileNotFoundError"
      "[str_of ''NLPAnalysis.py'', str_of ''nb'']" "\<lambda>a. Inl ValueError" FileNotFoundError]
    main_incorrect_keyword_exit_zero [of None
      "[str_of ''NLPAnalysis.py'', str_of ''NB'']" "\<lambda>a. Inl ValueError" FileNotFoundError]
  by (simp add: known_keywords_def exit_status_def main_def NLPAnalysis_def str_of_def)

section \<open>\<^verbatim>\<open>check_emoticons\<close> as \<^verbatim>\<open>tokenize_data\<close> calls it\<close>

text \<open>
  C10: with \<open>lowercase\<close> left at \<open>False\<close>, \<open>check_emoticons\<close> returns its tokens as they
  are.
\<close>

theorem check_emoticons_default_identity: "check_emoticons u tokens False = tokens"
  by (simp add: check_emoticons_def)

theorem check_emoticons_default_identity_witness:
  "check_emoticons ascii [str_of ''Hi'', str_of '':D'', str_of ''THERE''] False
     = [str_of ''Hi'', str_of '':D'', str_of ''THERE'']"
  using check_emoticons_default_identity [of ascii "[str_of ''Hi'', str_of '':D'', str_of ''THERE'']"]
  by simp

section \<open>What a match leaves\<close>

text \<open>
  A match hands a suffix of the text to the rest of the pattern, and a proper suffix when
  the pattern has no way to match without a character.
\<close>

lemma sre_match_suffix:
  "sre_match u r k s = Some x \<Longrightarrow> \<exists>s'. suffix s' s \<and> k s' = Some x"
proof (induction u r k s arbitrary: x rule: sre_match.induct)
  case (1 u k s)
  then show ?case by auto
next
  case (2 u c k s)
  then show ?case by (auto split: list.splits if_splits intro: suffix_ConsI)
next
  case (3 u items k s)
  then show ?case by (auto split: list.splits if_splits intro: suffix_ConsI)
next
  case (4 u items k s)
  then show ?case by (auto split: list.splits if_splits intro: suffix_ConsI)
next
  case (5 u a b k s)
  from "5.prems" have "sre_match u a (\<lambda>s'. sre_match u b k s') s = Some x" by simp
  from "5.IH"(2) [OF this] obtain s1 where s1: "suffix s1 s" "sre_match u b k s1 = Some x" by blast
  from "5.IH"(1) [OF s1(2)] obtain s2 where "suffix s2 s1" "k s2 = Some x" by blast
  with s1(1) show ?case by (blast intro: suffix_order.trans)
next
  case (6 u a b k s)
  then show ?case by (auto split: option.splits)
next
  case (7 u a k s)
  then show ?case by (auto split: option.splits)
next
  case (8 u a k s)
  let ?k = "\<lambda>s'. if length s' < length s then sre_match u (Star a) k s' else None"
  show ?case
  proof (cases "sre_match u a ?k s")
    case None
    with "8.prems" show ?thesis by auto
  next
    case (Some y)
    with "8.prems" have eq: "sre_match u a ?k s = Some x" by simp
    from "8.IH"(2) [OF eq] obtain s1 where s1: "suffix s1 s" "?k s1 = Some x" by blast
    then have lt: "length s1 < length s" and st: "sre_match u (Star a) k s1 = Some x"
      by (auto split: if_splits)
    from "8.IH"(1) [OF lt st] obtain s2 where "suffix s2 s1" "k s2 = Some x" by blast
    with s1(1) show ?thesis by (blast intro: suffix_order.trans)
  qed
qed

lemma sre_match_consumes:
  "sre_match u r k s = Some x \<Longrightarrow> consumes r \<Longrightarrow>
     \<exists>s'. suffix s' s \<and> length s' < length s \<and> k s' = Some x"
proof (induction u r k s arbitrary: x rule: sre_match.induct)
  case (5 u a b k s)
  from "5.prems" have m: "sre_match u a (\<lambda>s'. sre_match u b k s') s = Some x" by simp
  show ?case
  proof (cases "consumes a")
    case True
    from "5.IH"(2) [OF m True] obtain s1 where
      s1: "suffix s1 s" "length s1 < length s" "sre_match u b k s1 = Some x" by blast
    from sre_match_suffix [OF s1(3)] obtain s2 where s2: "suffix s2 s1" "k s2 = Some x" by blast
    from s2(1) have "length s2 \<le> length s1" by (rule suffix_length_le)
    with s1 s2 show ?thesis by (auto intro: suffix_order.trans)
  next
    case False
    with "5.prems" have cb: "consumes b" by simp
    from sre_match_suffix [OF m] obtain s1 where
      s1: "suffix s1 s" "sre_match u b k s1 = Some x" by blast
    from "5.IH"(1) [OF s1(2) cb] obtain s2 where
      s2: "suffix s2 s1" "length s2 < length s1" "k s2 = Some x" by blast
    from s1(1) have "length s1 \<le> length s" by (rule suffix_length_le)
    with s1 s2 show ?thesis by (auto intro: suffix_order.trans)
  qed
next
  case (6 u a b k s)
  then show ?case by (auto split: option.splits)
qed (auto split: list.splits if_splits intro: suffix_ConsI)

section \<open>The tokens of a text\<close>

lemma sre_match_alts_last:
  "rs \<noteq> [] \<Longrightarrow> sre_match u (last rs) k s \<noteq> None \<Longrightarrow> sre_match u (alts rs) k s \<noteq> None"
  by (induction rs rule: alts.induct) (auto split: option.splits)

lemma not_space_in_ignore: "\<not> isspace u c \<Longrightarrow> in_ignore u c [CATEGORY CATEGORY_NOT_SPACE]"
  by (simp add: in_ignore_def)

lemma token_re_matches:
  "\<not> isspace u c \<Longrightarrow> sre_match u token_re Some (c # cs) \<noteq> None"
  unfolding token_re_def
  by (rule sre_match_alts_last) (simp_all add: regex_str_def not_space_in_ignore)

lemma consumes_token_re: "consumes token_re"
  by (simp add: patterns)

lemma findall_token_re_covers:
  "filter (\<lambda>c. \<not> isspace u c) (concat (findall u token_re s)) = filter (\<lambda>c. \<not> isspace u c) s"
proof (induction s rule: length_induct)
  case (1 s)
  show ?case
  proof (cases "sre_match u token_re Some s")
    case None
    show ?thesis
    proof (cases s)
      case Nil
      then show ?thesis by (simp add: findall_token_re_empty)
    next
      case (Cons c cs)
      with None token_re_matches [of u c cs] have sp: "isspace u c" by auto
      from None Cons have "findall u token_re s = findall u token_re cs"
        by (subst findall.simps) simp
      moreover from 1 Cons have
        "filter (\<lambda>c. \<not> isspace u c) (concat (findall u token_re cs)) = filter (\<lambda>c. \<not> isspace u c) cs"
        by simp
      ultimately show ?thesis using sp Cons by simp
    qed
  next
    case (Some rest)
    from sre_match_consumes [OF Some consumes_token_re]
    have suf: "suffix rest s" and lt: "length rest < length s" by auto
    from suf obtain pre where s: "s = pre @ rest" by (auto simp add: suffix_def)
    then have tk: "take (length s - length rest) s = pre" by simp
    from Some lt have "findall u token_re s = take (length s - length rest) s # findall u token_re rest"
      by (subst findall.simps) simp
    then have "concat (findall u token_re s) = pre @ concat (findall u token_re rest)"
      using tk by simp
    moreover from 1 lt have
      "filter (\<lambda>c. \<not> isspace u c) (concat (findall u token_re rest)) = filter (\<lambda>c. \<not> isspace u c) rest"
      by simp
    ultimately show ?thesis using s by simp
  qed
qed

lemma tokenized_tweets_unfiltered:
  "tokenized_tweets u corpus False text = Inr (findall u token_re text)"
  by (simp add: tokenized_tweets_def check_emoticons_def)

section \<open>ASCII texts\<close>

text \<open>
  On an ASCII text the matcher reads the tables at code points below 128 only, so every
  table that has the rows of \<open>ascii\<close> there finds what \<open>ascii\<close> finds. An example computed
  with \<open>ascii\<close> is therefore a fact about Python's own tables.
\<close>

lemma ascii_agree_ascii: "ascii_agree ascii"
  by (simp add: ascii_agree_def)

lemma ascii_text_Cons: "ascii_text (c # cs) \<longleftrightarrow> c < 128 \<and> ascii_text cs"
  by (simp add: ascii_text_def)

lemma ascii_text_suffix: "suffix s' s \<Longrightarrow> ascii_text s \<Longrightarrow> ascii_text s'"
  by (auto simp add: ascii_text_def suffix_def)

lemma sre_match_cong:
  "(\<And>s'. suffix s' s \<Longrightarrow> k1 s' = k2 s') \<Longrightarrow> sre_match u r k1 s = sre_match u r k2 s"
proof (induction u r k1 s arbitrary: k2 rule: sre_match.induct)
  case (1 u k s)
  then show ?case by simp
next
  case (2 u x k s)
  then show ?case by (cases s) (simp_all add: suffix_ConsI)
next
  case (3 u items k s)
  then show ?case by (cases s) (simp_all add: suffix_ConsI)
next
  case (4 u items k s)
  then show ?case by (cases s) (simp_all add: suffix_ConsI)
next
  case (5 u a b k s)
  have inner: "sre_match u b k s' = sre_match u b k2 s'" if "suffix s' s" for s'
  proof (rule "5.IH"(1))
    fix s'' assume "suffix s'' s'"
    from this that have "suffix s'' s" by (rule suffix_order.trans)
    then show "k s'' = k2 s''" by (rule "5.prems")
  qed
  have "sre_match u a (\<lambda>s'. sre_match u b k s') s = sre_match u a (\<lambda>s'. sre_match u b k2 s') s"
    by (rule "5.IH"(2)) (rule inner)
  then show ?case by simp
next
  case (6 u a b k s)
  have a: "sre_match u a k s = sre_match u a k2 s"
    by (rule "6.IH"(1)) (rule "6.prems")
  show ?case
  proof (cases "sre_match u a k s")
    case None
    have "sre_match u b k s = sre_match u b k2 s"
      by (rule "6.IH"(2) [OF None]) (rule "6.prems")
    with a None show ?thesis by simp
  next
    case (Some y)
    from a Some have "sre_match u a k2 s = Some y" by simp
    with Some show ?thesis by simp
  qed
next
  case (7 u a k s)
  have a: "sre_match u a k s = sre_match u a k2 s"
    by (rule "7.IH") (rule "7.prems")
  have "k s = k2 s" by (rule "7.prems") simp
  with a show ?case by (simp split: option.splits)
next
  case (8 u a k s)
  let ?k1 = "\<lambda>s'. if length s' < length s then sre_match u (Star a) k s' else None"
  let ?k2 = "\<lambda>s'. if length s' < length s then sre_match u (Star a) k2 s' else None"
  have inner: "?k1 s' = ?k2 s'" if "suffix s' s" for s'
  proof (cases "length s' < length s")
    case True
    have "sre_match u (Star a) k s' = sre_match u (Star a) k2 s'"
    proof (rule "8.IH"(1) [OF True])
      fix s'' assume "suffix s'' s'"
      from this that have "suffix s'' s" by (rule suffix_order.trans)
      then show "k s'' = k2 s''" by (rule "8.prems")
    qed
    with True show ?thesis by simp
  next
    case False
    then show ?thesis by simp
  qed
  have a: "sre_match u a ?k1 s = sre_match u a ?k2 s"
    by (rule "8.IH"(2)) (rule inner)
  have "k s = k2 s" by (rule "8.prems") simp
  with a show ?case by (simp split: option.splits)
qed

lemma in_item_ascii:
  assumes "ascii_agree u" and "c < 128"
  shows "in_item u c i = in_item ascii c i"
proof -
  from assms have cat: "isspace u c = isspace ascii c" "isdecimal u c = isdecimal ascii c"
      "isalnum u c = isalnum ascii c"
    and ign: "\<And>x. x < 256 \<Longrightarrow> x \<in> set (ignorecase u c) \<longleftrightarrow> x \<in> set (ignorecase ascii c)"
    by (simp_all add: ascii_agree_def)
  show ?thesis
  proof (cases i)
    case (LITERAL x)
    then show ?thesis by (simp add: ign)
  next
    case (RANGE a b)
    have "(\<exists>x\<in>set (ignorecase u c). of_char a \<le> x \<and> x \<le> of_char b)
            = (\<exists>x\<in>set (ignorecase ascii c). of_char a \<le> x \<and> x \<le> of_char b)"
    proof -
      have small: "x < 256" if "x \<le> of_char b" for x :: nat
        by (rule le_less_trans [OF that nat_of_char_less_256])
      show ?thesis using ign small by blast
    qed
    with RANGE show ?thesis by (simp add: list_ex_iff)
  next
    case (CATEGORY cat')
    then show ?thesis by (cases cat') (simp_all add: cat)
  qed
qed

lemma in_ignore_ascii: "ascii_agree u \<Longrightarrow> c < 128 \<Longrightarrow> in_ignore u c items = in_ignore ascii c items"
  by (simp add: in_ignore_def list_ex_iff in_item_ascii)

lemma literal_ascii:
  "ascii_agree u \<Longrightarrow> c < 128 \<Longrightarrow>
     (of_char x \<in> set (ignorecase u c)) = (of_char x \<in> set (ignorecase ascii c))"
  by (simp add: ascii_agree_def)

lemma sre_match_ascii:
  "ascii_agree u \<Longrightarrow> ascii_text s \<Longrightarrow> sre_match u r k s = sre_match ascii r k s"
proof (induction u r k s rule: sre_match.induct)
  case (1 u k s)
  then show ?case by simp
next
  case (2 u x k s)
  then show ?case by (cases s) (simp_all add: ascii_text_Cons literal_ascii)
next
  case (3 u items k s)
  then show ?case by (cases s) (simp_all add: ascii_text_Cons in_ignore_ascii)
next
  case (4 u items k s)
  then show ?case by (cases s) (simp_all add: ascii_text_Cons in_ignore_ascii)
next
  case (5 u a b k s)
  have "sre_match u a (\<lambda>s'. sre_match u b k s') s = sre_match ascii a (\<lambda>s'. sre_match u b k s') s"
    by (rule "5.IH"(2) [OF "5.prems"])
  also have "\<dots> = sre_match ascii a (\<lambda>s'. sre_match ascii b k s') s"
  proof (rule sre_match_cong)
    fix s' assume "suffix s' s"
    then have "ascii_text s'" using "5.prems"(2) by (rule ascii_text_suffix)
    with "5.prems"(1) show "sre_match u b k s' = sre_match ascii b k s'" by (rule "5.IH"(1))
  qed
  finally show ?case by simp
next
  case (6 u a b k s)
  have a: "sre_match u a k s = sre_match ascii a k s"
    by (rule "6.IH"(1) [OF "6.prems"])
  show ?case
  proof (cases "sre_match u a k s")
    case None
    have "sre_match u b k s = sre_match ascii b k s"
      by (rule "6.IH"(2) [OF None "6.prems"])
    with a None show ?thesis by simp
  next
    case (Some y)
    from a Some have "sre_match ascii a k s = Some y" by simp
    with Some show ?thesis by simp
  qed
next
  case (7 u a k s)
  have "sre_match u a k s = sre_match ascii a k s"
    by (rule "7.IH" [OF "7.prems"])
  then show ?case by simp
next
  case (8 u a k s)
  let ?ku = "\<lambda>s'. if length s' < length s then sre_match u (Star a) k s' else None"
  let ?ka = "\<lambda>s'. if length s' < length s then sre_match ascii (Star a) k s' else None"
  have "sre_match u a ?ku s = sre_match ascii a ?ku s"
    by (rule "8.IH"(2) [OF "8.prems"])
  also have "\<dots> = sre_match ascii a ?ka s"
  proof (rule sre_match_cong)
    fix s' assume suf: "suffix s' s"
    show "?ku s' = ?ka s'"
    proof (cases "length s' < length s")
      case True
      from suf "8.prems"(2) have "ascii_text s'" by (rule ascii_text_suffix)
      with True "8.prems"(1) have "sre_match u (Star a) k s' = sre_match ascii (Star a) k s'"
        by (rule "8.IH"(1))
      with True show ?thesis by simp
    next
      case False
      then show ?thesis by simp
    qed
  qed
  finally show ?case by simp
qed

lemma findall_ascii:
  "ascii_agree u \<Longrightarrow> ascii_text s \<Longrightarrow> findall u r s = findall ascii r s"
proof (induction s rule: length_induct)
  case (1 s)
  from "1.prems" have m: "sre_match u r Some s = sre_match ascii r Some s"
    by (rule sre_match_ascii)
  have shorter: "findall u r s' = findall ascii r s'" if "length s' < length s" "suffix s' s" for s'
  proof -
    from that(2) "1.prems"(2) have "ascii_text s'" by (rule ascii_text_suffix)
    with "1.IH" that(1) "1.prems"(1) show ?thesis by blast
  qed
  have tl: "findall u r cs = findall ascii r cs" if "s = c # cs" for c cs
    by (rule shorter) (simp_all add: that suffix_ConsI)
  show ?case
  proof (cases "sre_match ascii r Some s")
    case None
    with m have "sre_match u r Some s = None" by simp
    with None tl show ?thesis
      by (subst findall.simps, subst (2) findall.simps) (simp split: list.splits)
  next
    case (Some rest)
    from sre_match_suffix [OF Some] have suf: "suffix rest s" by simp
    from m Some have mu: "sre_match u r Some s = Some rest" by simp
    show ?thesis
    proof (cases "length rest < length s")
      case True
      from shorter [OF True suf] Some mu True show ?thesis
        by (subst findall.simps, subst (2) findall.simps) simp
    next
      case False
      with Some mu tl show ?thesis
        by (subst findall.simps, subst (2) findall.simps) (simp split: list.splits)
    qed
  qed
qed

lemma emoticon_re_search_ascii:
  "ascii_agree u \<Longrightarrow> ascii_text token \<Longrightarrow> emoticon_re_search u token = emoticon_re_search ascii token"
  by (simp add: emoticon_re_search_def sre_match_ascii)

lemma lower_ascii: "ascii_agree u \<Longrightarrow> ascii_text s \<Longrightarrow> lower u s = lower ascii s"
  by (simp add: ascii_agree_def)

lemma ascii_text_Hi_D: "ascii_text (str_of ''Hi :D'')" "ascii_text (str_of ''Hi'')"
  "ascii_text (str_of '':D'')"
  by (simp_all add: ascii_text_def str_of_def)

lemma findall_Hi_D: "findall ascii token_re (str_of ''Hi :D'') = [str_of ''Hi'', str_of '':D'']"
  by (simp add: findall.simps patterns ascii_tables)

lemma emoticon_re_search_Hi_D:
  "\<not> emoticon_re_search ascii (str_of ''Hi'')" "emoticon_re_search ascii (str_of '':D'')"
  by (simp_all add: emoticon_re_search_def emoticons_str_def ascii_tables)

lemma lower_Hi: "lower ascii (str_of ''Hi'') = str_of ''hi''"
  by (simp add: ascii_tables)

lemma split_Hi_D: "str_split (str_of ''Hi :D'') (str_of ''|||'') = Inr [str_of ''Hi :D'']"
  by (simp add: str_split_def str_of_def)

section \<open>The casing of the tokens\<close>

text \<open>
  C1 is what the docstring of \<^verbatim>\<open>check_emoticons\<close> and the comment at its call describe,
  and the code does not do it: \<^verbatim>\<open>tokenize_data\<close> calls \<^verbatim>\<open>check_emoticons\<close> without
  \<^verbatim>\<open>lowercase = True\<close>, so nothing is lowercased. For the record with the posts
  \<^verbatim>\<open>Hi :D\<close> the tokens are \<^verbatim>\<open>Hi\<close> and \<^verbatim>\<open>:D\<close>: the first is no emoticon and keeps its
  capital, where the claim has \<^verbatim>\<open>hi\<close>. Called with \<^verbatim>\<open>lowercase = True\<close>, the same
  function gives \<^verbatim>\<open>hi\<close> and \<^verbatim>\<open>:D\<close>, as the claim has it. This holds for every table
  with the rows of Python's below 128.
\<close>

theorem tokens_not_lowercased:
  "ascii_agree u \<Longrightarrow>
     tokenize_data u corpus [\<lparr>ptype = str_of ''INTJ'', posts = str_of ''Hi :D''\<rparr>] False
       = Inr [(str_of ''INTJ'', [str_of ''Hi'', str_of '':D''])]
     \<and> \<not> emoticon_re_search u (str_of ''Hi'')
     \<and> lower u (str_of ''Hi'') = str_of ''hi''
     \<and> str_of ''Hi'' \<noteq> str_of ''hi''
     \<and> check_emoticons u [str_of ''Hi'', str_of '':D''] True = [str_of ''hi'', str_of '':D'']"
proof -
  assume agree: "ascii_agree u"
  have fa: "findall u token_re (str_of ''Hi :D'') = [str_of ''Hi'', str_of '':D'']"
    using findall_ascii [OF agree ascii_text_Hi_D(1)] findall_Hi_D by simp
  have e1: "\<not> emoticon_re_search u (str_of ''Hi'')"
    using emoticon_re_search_ascii [OF agree ascii_text_Hi_D(2)] emoticon_re_search_Hi_D(1) by simp
  have e2: "emoticon_re_search u (str_of '':D'')"
    using emoticon_re_search_ascii [OF agree ascii_text_Hi_D(3)] emoticon_re_search_Hi_D(2) by simp
  have lo: "lower u (str_of ''Hi'') = str_of ''hi''"
    using lower_ascii [OF agree ascii_text_Hi_D(2)] lower_Hi by simp
  have td: "tokenize_data u corpus [\<lparr>ptype = str_of ''INTJ'', posts = str_of ''Hi :D''\<rparr>] False
       = Inr [(str_of ''INTJ'', [str_of ''Hi'', str_of '':D''])]"
    by (simp add: tokenize_data_def split_Hi_D tokenized_tweets_unfiltered fa)
  have ne: "str_of ''Hi'' \<noteq> str_of ''hi''"
    by (simp add: str_of_def)
  have ce: "check_emoticons u [str_of ''Hi'', str_of '':D''] True = [str_of ''hi'', str_of '':D'']"
    by (simp add: check_emoticons_def e1 e2 lo)
  from td e1 lo ne ce show ?thesis by simp
qed

theorem tokens_not_lowercased_witness:
  "tokenize_data ascii None [\<lparr>ptype = str_of ''INTJ'', posts = str_of ''Hi :D''\<rparr>] False
       = Inr [(str_of ''INTJ'', [str_of ''Hi'', str_of '':D''])]
   \<and> \<not> emoticon_re_search ascii (str_of ''Hi'')
   \<and> lower ascii (str_of ''Hi'') = str_of ''hi''
   \<and> check_emoticons ascii [str_of ''Hi'', str_of '':D''] True = [str_of ''hi'', str_of '':D'']"
  using tokens_not_lowercased [OF ascii_agree_ascii, of None] by simp

section \<open>No character is lost\<close>

text \<open>
  C3: the tokens of a text, one after the other, are the text without some of its white
  space, so every character of the text that is not white space is in a token.
\<close>

theorem tokens_cover_text:
  "tokenized_tweets u corpus False text = Inr (findall u token_re text)
   \<and> filter (\<lambda>c. \<not> isspace u c) (concat (findall u token_re text)) = filter (\<lambda>c. \<not> isspace u c) text
   \<and> (\<forall>c\<in>set text. \<not> isspace u c \<longrightarrow> (\<exists>token\<in>set (findall u token_re text). c \<in> set token))"
proof (intro conjI ballI impI)
  show "tokenized_tweets u corpus False text = Inr (findall u token_re text)"
    by (rule tokenized_tweets_unfiltered)
next
  show "filter (\<lambda>c. \<not> isspace u c) (concat (findall u token_re text)) = filter (\<lambda>c. \<not> isspace u c) text"
    by (rule findall_token_re_covers)
next
  fix c
  assume "c \<in> set text" and "\<not> isspace u c"
  then have "c \<in> set (filter (\<lambda>c. \<not> isspace u c) text)" by simp
  then have "c \<in> set (filter (\<lambda>c. \<not> isspace u c) (concat (findall u token_re text)))"
    by (simp only: findall_token_re_covers)
  then show "\<exists>token\<in>set (findall u token_re text). c \<in> set token" by auto
qed

theorem tokens_cover_text_witness:
  "tokenized_tweets ascii None False (str_of ''Hi :D'') = Inr [str_of ''Hi'', str_of '':D'']
   \<and> filter (\<lambda>c. \<not> isspace ascii c) (concat [str_of ''Hi'', str_of '':D''])
       = filter (\<lambda>c. \<not> isspace ascii c) (str_of ''Hi :D'')
   \<and> (\<exists>token\<in>set [str_of ''Hi'', str_of '':D'']. of_char CHR ''D'' \<in> set token)"
  using tokens_cover_text [of ascii None "str_of ''Hi :D''"] unfolding findall_Hi_D
  by (simp add: ascii_def str_of_def)

section \<open>One row for each post\<close>

lemma str_split_sep: "str_split s (str_of ''|||'') = Inr (split_from (str_of ''|||'') [] s)"
  by (simp add: str_split_def str_of_def)

lemma tokenized_tweets_total:
  "(filter_stopwords \<longrightarrow> corpus \<noteq> None) \<Longrightarrow>
     \<exists>tokens. tokenized_tweets u corpus filter_stopwords tweet = Inr tokens"
  by (auto simp add: tokenized_tweets_def remove_stopwords_def Let_def)

lemma tweets_loop_pairs:
  "(filter_stopwords \<longrightarrow> corpus \<noteq> None) \<Longrightarrow>
     \<exists>toks. tweets_loop u corpus filter_stopwords l acc tweets = Inr (acc @ map (Pair l) toks)
       \<and> list_all2 (\<lambda>tweet tokens. tokenized_tweets u corpus filter_stopwords tweet = Inr tokens) tweets toks"
proof (induction tweets arbitrary: acc)
  case Nil
  then show ?case by simp
next
  case (Cons tweet tweets)
  from tokenized_tweets_total [OF Cons.prems] obtain tokens where
    tk: "tokenized_tweets u corpus filter_stopwords tweet = Inr tokens" by blast
  from Cons.IH [OF Cons.prems, of "acc @ [(l, tokens)]"] obtain toks where
    "tweets_loop u corpus filter_stopwords l (acc @ [(l, tokens)]) tweets
       = Inr ((acc @ [(l, tokens)]) @ map (Pair l) toks)"
    "list_all2 (\<lambda>tweet tokens. tokenized_tweets u corpus filter_stopwords tweet = Inr tokens) tweets toks"
    by blast
  with tk show ?case by (intro exI [of _ "tokens # toks"]) simp
qed

lemma rows_loop_pairs:
  "(filter_stopwords \<longrightarrow> corpus \<noteq> None) \<Longrightarrow>
     \<exists>out. rows_loop u corpus filter_stopwords acc df = Inr (acc @ out)
       \<and> map fst out = concat (map (\<lambda>r. replicate (length (split_from (str_of ''|||'') [] (posts r))) (ptype r)) df)
       \<and> list_all2 (\<lambda>tweet tokens. tokenized_tweets u corpus filter_stopwords tweet = Inr tokens)
            (concat (map (\<lambda>r. split_from (str_of ''|||'') [] (posts r)) df)) (map snd out)"
proof (induction df arbitrary: acc)
  case Nil
  then show ?case by simp
next
  case (Cons r df)
  let ?P = "\<lambda>tweet tokens. tokenized_tweets u corpus filter_stopwords tweet = Inr tokens"
  let ?tweets = "split_from (str_of ''|||'') [] (posts r)"
  from tweets_loop_pairs [OF Cons.prems, of u "ptype r" acc ?tweets] obtain toks where
    tl: "tweets_loop u corpus filter_stopwords (ptype r) acc ?tweets = Inr (acc @ map (Pair (ptype r)) toks)"
    and all: "list_all2 ?P ?tweets toks"
    by blast
  from Cons.IH [OF Cons.prems, of "acc @ map (Pair (ptype r)) toks"] obtain out where
    rl: "rows_loop u corpus filter_stopwords (acc @ map (Pair (ptype r)) toks) df
           = Inr ((acc @ map (Pair (ptype r)) toks) @ out)"
    and labels: "map fst out
           = concat (map (\<lambda>r. replicate (length (split_from (str_of ''|||'') [] (posts r))) (ptype r)) df)"
    and toks: "list_all2 ?P (concat (map (\<lambda>r. split_from (str_of ''|||'') [] (posts r)) df)) (map snd out)"
    by blast
  from all have len: "length toks = length ?tweets" by (simp add: list_all2_lengthD)
  show ?case
  proof (intro exI [of _ "map (Pair (ptype r)) toks @ out"] conjI)
    show "rows_loop u corpus filter_stopwords acc (r # df) = Inr (acc @ map (Pair (ptype r)) toks @ out)"
      using tl rl by (simp add: str_split_sep)
    show "map fst (map (Pair (ptype r)) toks @ out)
            = concat (map (\<lambda>r. replicate (length (split_from (str_of ''|||'') [] (posts r))) (ptype r)) (r # df))"
      using labels len by (simp add: comp_def map_replicate_const)
    show "list_all2 ?P (concat (map (\<lambda>r. split_from (str_of ''|||'') [] (posts r)) (r # df)))
            (map snd (map (Pair (ptype r)) toks @ out))"
      using all toks by (simp add: comp_def list_all2_appendI)
  qed
qed

lemma tokenize_data_example:
  "tokenize_data ascii None [\<lparr>ptype = str_of ''INTJ'', posts = str_of ''a|||B c''\<rparr>, \<lparr>ptype = str_of ''ENFP'', posts = str_of ''''\<rparr>] False
     = Inr [(str_of ''INTJ'', [str_of ''a'']), (str_of ''INTJ'', [str_of ''B'', str_of ''c'']), (str_of ''ENFP'', [])]"
  by (simp add: tokenize_data_def str_split_def tokenized_tweets_def check_emoticons_def
        findall.simps patterns ascii_tables)

text \<open>
  C4: the rows of the result are the posts of the records, in order: a record whose
  \<^verbatim>\<open>posts\<close> split at \<^verbatim>\<open>|||\<close> into k posts gives k rows, each with the label of the
  record and the tokens of its post, and the number of rows is the sum of these k.
\<close>

theorem one_pair_per_post:
  "(filter_stopwords \<longrightarrow> corpus \<noteq> None) \<Longrightarrow>
     \<exists>out. tokenize_data u corpus df filter_stopwords = Inr out
       \<and> map fst out = concat (map (\<lambda>r. replicate (length (split_from (str_of ''|||'') [] (posts r))) (ptype r)) df)
       \<and> list_all2 (\<lambda>tweet tokens. tokenized_tweets u corpus filter_stopwords tweet = Inr tokens)
            (concat (map (\<lambda>r. split_from (str_of ''|||'') [] (posts r)) df)) (map snd out)
       \<and> length out = sum_list (map (\<lambda>r. length (split_from (str_of ''|||'') [] (posts r))) df)"
proof -
  assume ok: "filter_stopwords \<longrightarrow> corpus \<noteq> None"
  from rows_loop_pairs [OF ok, of u "[]" df] obtain out where
    out: "tokenize_data u corpus df filter_stopwords = Inr out"
    and labels: "map fst out
           = concat (map (\<lambda>r. replicate (length (split_from (str_of ''|||'') [] (posts r))) (ptype r)) df)"
    and toks: "list_all2 (\<lambda>tweet tokens. tokenized_tweets u corpus filter_stopwords tweet = Inr tokens)
            (concat (map (\<lambda>r. split_from (str_of ''|||'') [] (posts r)) df)) (map snd out)"
    by (auto simp add: tokenize_data_def)
  have "length out = length (map fst out)" by simp
  also have "\<dots> = sum_list (map (\<lambda>r. length (split_from (str_of ''|||'') [] (posts r))) df)"
    unfolding labels by (simp add: length_concat comp_def)
  finally show ?thesis using out labels toks by blast
qed

theorem one_pair_per_post_witness:
  "tokenize_data ascii None [\<lparr>ptype = str_of ''INTJ'', posts = str_of ''a|||B c''\<rparr>, \<lparr>ptype = str_of ''ENFP'', posts = str_of ''''\<rparr>] False
     = Inr [(str_of ''INTJ'', [str_of ''a'']), (str_of ''INTJ'', [str_of ''B'', str_of ''c'']), (str_of ''ENFP'', [])]
   \<and> split_from (str_of ''|||'') [] (str_of ''a|||B c'') = [str_of ''a'', str_of ''B c'']
   \<and> split_from (str_of ''|||'') [] (str_of '''') = [str_of '''']
   \<and> map fst [(str_of ''INTJ'', [str_of ''a'']), (str_of ''INTJ'', [str_of ''B'', str_of ''c'']), (str_of ''ENFP'', [])]
       = [str_of ''INTJ'', str_of ''INTJ'', str_of ''ENFP'']"
  using one_pair_per_post [of False None ascii
      "[\<lparr>ptype = str_of ''INTJ'', posts = str_of ''a|||B c''\<rparr>, \<lparr>ptype = str_of ''ENFP'', posts = str_of ''''\<rparr>]"]
  unfolding tokenize_data_example by (simp add: str_of_def)

section \<open>Partitions\<close>

lemma tweets_loop_acc:
  "tweets_loop u corpus fs l acc tweets
     = (case tweets_loop u corpus fs l [] tweets of Inl e \<Rightarrow> Inl e | Inr out \<Rightarrow> Inr (acc @ out))"
proof (induction tweets arbitrary: acc)
  case Nil
  then show ?case by simp
next
  case (Cons tweet tweets)
  show ?case
  proof (cases "tokenized_tweets u corpus fs tweet")
    case (Inl e)
    then show ?thesis by simp
  next
    case (Inr tokens)
    have "tweets_loop u corpus fs l (acc @ [(l, tokens)]) tweets
            = (case tweets_loop u corpus fs l [] tweets of
                 Inl e \<Rightarrow> Inl e | Inr out \<Rightarrow> Inr ((acc @ [(l, tokens)]) @ out))"
      by (rule Cons.IH)
    moreover have "tweets_loop u corpus fs l ([] @ [(l, tokens)]) tweets
            = (case tweets_loop u corpus fs l [] tweets of
                 Inl e \<Rightarrow> Inl e | Inr out \<Rightarrow> Inr (([] @ [(l, tokens)]) @ out))"
      by (rule Cons.IH)
    ultimately show ?thesis using Inr by (simp split: sum.splits)
  qed
qed

lemma rows_loop_acc:
  "rows_loop u corpus fs acc df
     = (case rows_loop u corpus fs [] df of Inl e \<Rightarrow> Inl e | Inr out \<Rightarrow> Inr (acc @ out))"
proof (induction df arbitrary: acc)
  case Nil
  then show ?case by simp
next
  case (Cons r df)
  let ?tweets = "split_from (str_of ''|||'') [] (posts r)"
  have tl: "tweets_loop u corpus fs (ptype r) acc ?tweets
          = (case tweets_loop u corpus fs (ptype r) [] ?tweets of
               Inl e \<Rightarrow> Inl e | Inr out \<Rightarrow> Inr (acc @ out))"
    by (rule tweets_loop_acc)
  show ?case
  proof (cases "tweets_loop u corpus fs (ptype r) [] ?tweets")
    case (Inl e)
    with tl show ?thesis by (simp add: str_split_sep)
  next
    case (Inr pairs)
    have "rows_loop u corpus fs (acc @ pairs) df
            = (case rows_loop u corpus fs [] df of Inl e \<Rightarrow> Inl e | Inr out \<Rightarrow> Inr ((acc @ pairs) @ out))"
      by (rule Cons.IH)
    moreover have "rows_loop u corpus fs pairs df
            = (case rows_loop u corpus fs [] df of Inl e \<Rightarrow> Inl e | Inr out \<Rightarrow> Inr (pairs @ out))"
      by (rule Cons.IH)
    ultimately show ?thesis using Inr tl by (simp add: str_split_sep split: sum.splits)
  qed
qed

lemma rows_loop_append:
  "rows_loop u corpus fs acc (xs @ ys)
     = (case rows_loop u corpus fs acc xs of Inl e \<Rightarrow> Inl e | Inr acc' \<Rightarrow> rows_loop u corpus fs acc' ys)"
  by (induction xs arbitrary: acc) (simp_all split: sum.splits)

lemma tokenize_data_append:
  "tokenize_data u corpus (xs @ ys) fs
     = (case tokenize_data u corpus xs fs of
          Inl e \<Rightarrow> Inl e
        | Inr a \<Rightarrow> (case tokenize_data u corpus ys fs of Inl e \<Rightarrow> Inl e | Inr b \<Rightarrow> Inr (a @ b)))"
proof (cases "rows_loop u corpus fs [] xs")
  case (Inl e)
  then show ?thesis by (simp add: tokenize_data_def rows_loop_append)
next
  case (Inr a)
  have "rows_loop u corpus fs a ys
          = (case rows_loop u corpus fs [] ys of Inl e \<Rightarrow> Inl e | Inr out \<Rightarrow> Inr (a @ out))"
    by (rule rows_loop_acc)
  with Inr show ?thesis by (simp add: tokenize_data_def rows_loop_append)
qed

lemma pool_map_tokenize_data:
  "(case pool_map (\<lambda>d. tokenize_data u corpus d fs) subsets of
      Inl e \<Rightarrow> Inl e
    | Inr results \<Rightarrow> Inr (concat results))
   = tokenize_data u corpus (concat subsets) fs"
proof (induction subsets)
  case Nil
  then show ?case by (simp add: tokenize_data_def)
next
  case (Cons d subsets)
  show ?case
    by (simp add: tokenize_data_append Cons.IH [symmetric] split: sum.splits)
qed

lemma pool_map_length: "pool_map f xs = Inr ys \<Longrightarrow> length ys = length xs"
  by (induction xs arbitrary: ys) (auto split: sum.splits)

lemma slices_concat:
  "concat (map (\<lambda>i. slice xs ((acc # cumsum_from acc sizes) ! i) ((acc # cumsum_from acc sizes) ! (i + 1)))
             [0..<length sizes])
     = take (sum_list sizes) (drop acc xs)"
proof (induction sizes arbitrary: acc)
  case Nil
  then show ?case by simp
next
  case (Cons z zs)
  have "concat (map (\<lambda>i. slice xs (((acc + z) # cumsum_from (acc + z) zs) ! i)
                              (((acc + z) # cumsum_from (acc + z) zs) ! (i + 1)))
                  [0..<length zs])
          = take (sum_list zs) (drop (acc + z) xs)"
    by (rule Cons.IH)
  then show ?case
    by (simp add: map_upt_Suc slice_def take_add add.commute del: upt_Suc)
qed

lemma section_sizes_sum:
  fixes Ntotal Nsections :: nat
  assumes "0 < Nsections"
  shows "sum_list (replicate (Ntotal mod Nsections) (Ntotal div Nsections + 1)
             @ replicate (Nsections - Ntotal mod Nsections) (Ntotal div Nsections)) = Ntotal"
proof -
  let ?e = "Ntotal mod Nsections" and ?q = "Ntotal div Nsections"
  from assms have le: "?e \<le> Nsections" by (simp add: less_imp_le)
  have "?e * (?q + 1) + (Nsections - ?e) * ?q = (?e + (Nsections - ?e)) * ?q + ?e"
    by (simp add: algebra_simps)
  also from le have "\<dots> = Nsections * ?q + ?e" by simp
  also have "\<dots> = Ntotal" by simp
  finally show ?thesis by (simp add: sum_list_replicate)
qed

lemma array_split_concat:
  assumes "0 < Nsections"
  shows "\<exists>subsets. array_split ary Nsections = Inr subsets \<and> concat subsets = ary
           \<and> length subsets = Nsections"
proof -
  let ?sizes = "replicate (length ary mod Nsections) (length ary div Nsections + 1)
                  @ replicate (Nsections - length ary mod Nsections) (length ary div Nsections)"
  from assms have len: "length ?sizes = Nsections" by (simp add: less_imp_le)
  have "concat (map (\<lambda>i. slice ary ((0 # cumsum_from 0 ?sizes) ! i) ((0 # cumsum_from 0 ?sizes) ! (i + 1)))
                  [0..<length ?sizes])
          = take (sum_list ?sizes) (drop 0 ary)"
    by (rule slices_concat)
  also have "\<dots> = ary" using section_sizes_sum [OF assms, of "length ary"] by simp
  finally have "concat (map (\<lambda>i. slice ary ((0 # cumsum_from 0 ?sizes) ! i)
                                     ((0 # cumsum_from 0 ?sizes) ! (i + 1))) [0..<Nsections]) = ary"
    unfolding len .
  with assms show ?thesis by (simp add: array_split_def cumsum_def Let_def)
qed

text \<open>
  C2: for every number of partitions from 1 on, \<open>parallelize\<close> with \<open>tokenize_data\<close>
  gives what \<open>tokenize_data\<close> gives on the whole data frame: the same rows in the same
  order, or the same error.
\<close>

theorem parallelize_tokenize_data:
  "0 < partitions \<Longrightarrow>
     parallelize partitions (\<lambda>df_subset. tokenize_data u corpus df_subset filter_stopwords) df
       = tokenize_data u corpus df filter_stopwords"
proof -
  assume pos: "0 < partitions"
  from array_split_concat [OF pos, of df] obtain subsets where
    sp: "array_split df partitions = Inr subsets" and cc: "concat subsets = df"
    and len: "length subsets = partitions" by blast
  let ?f = "\<lambda>df_subset. tokenize_data u corpus df_subset filter_stopwords"
  have pm: "(case pool_map ?f subsets of Inl e \<Rightarrow> Inl e | Inr results \<Rightarrow> Inr (concat results))
              = tokenize_data u corpus df filter_stopwords"
    using pool_map_tokenize_data [of u corpus filter_stopwords subsets] cc by simp
  show ?thesis
  proof (cases "pool_map ?f subsets")
    case (Inl e)
    with pm sp show ?thesis by (simp add: parallelize_def)
  next
    case (Inr results)
    from pool_map_length [OF Inr] len pos have "results \<noteq> []" by auto
    with Inr pm sp show ?thesis by (simp add: parallelize_def pd_concat_def)
  qed
qed

theorem parallelize_tokenize_data_witness:
  "parallelize 2 (\<lambda>df_subset. tokenize_data ascii None df_subset False)
       [\<lparr>ptype = str_of ''INTJ'', posts = str_of ''a|||B c''\<rparr>, \<lparr>ptype = str_of ''ENFP'', posts = str_of ''''\<rparr>]
     = Inr [(str_of ''INTJ'', [str_of ''a'']), (str_of ''INTJ'', [str_of ''B'', str_of ''c'']), (str_of ''ENFP'', [])]
   \<and> array_split [\<lparr>ptype = str_of ''INTJ'', posts = str_of ''a|||B c''\<rparr>, \<lparr>ptype = str_of ''ENFP'', posts = str_of ''''\<rparr>] 2
     = Inr [[\<lparr>ptype = str_of ''INTJ'', posts = str_of ''a|||B c''\<rparr>], [\<lparr>ptype = str_of ''ENFP'', posts = str_of ''''\<rparr>]]"
  using parallelize_tokenize_data [of 2 ascii None False
      "[\<lparr>ptype = str_of ''INTJ'', posts = str_of ''a|||B c''\<rparr>, \<lparr>ptype = str_of ''ENFP'', posts = str_of ''''\<rparr>]"]
  by (simp add: tokenize_data_example array_split_def cumsum_def slice_def Let_def upt_rec
        numeral_2_eq_2)

section \<open>What the grid search reports\<close>

lemma foldl_max_first:
  fixes key :: "'a \<Rightarrow> 'k::linorder"
  shows "\<exists>i<length (x # xs).
           (x # xs) ! i = foldl (\<lambda>max_item item. if key max_item < key item then item else max_item) x xs
         \<and> (\<forall>j<length (x # xs). key ((x # xs) ! j) \<le> key ((x # xs) ! i))
         \<and> (\<forall>j<i. key ((x # xs) ! j) < key ((x # xs) ! i))"
proof (induction xs rule: rev_induct)
  case Nil
  then show ?case by simp
next
  case (snoc z xs)
  let ?f = "\<lambda>max_item item. if key max_item < key item then item else max_item"
  let ?b = "foldl ?f x xs"
  from snoc obtain i where i: "i < length (x # xs)" "(x # xs) ! i = ?b"
    and le: "\<forall>j<length (x # xs). key ((x # xs) ! j) \<le> key ((x # xs) ! i)"
    and lt: "\<forall>j<i. key ((x # xs) ! j) < key ((x # xs) ! i)"
    by blast
  have app: "x # xs @ [z] = (x # xs) @ [z]" by simp
  have old: "\<And>j. j < length (x # xs) \<Longrightarrow> (x # xs @ [z]) ! j = (x # xs) ! j"
    unfolding app by (simp only: nth_append if_True)
  have new: "(x # xs @ [z]) ! length (x # xs) = z"
    unfolding app by (simp only: nth_append_length)
  show ?case
  proof (cases "key ?b < key z")
    case True
    have "\<forall>j<length (x # xs @ [z]). key ((x # xs @ [z]) ! j) \<le> key z"
    proof (intro allI impI)
      fix j assume "j < length (x # xs @ [z])"
      then have "j < length (x # xs) \<or> j = length (x # xs)" by auto
      then show "key ((x # xs @ [z]) ! j) \<le> key z"
      proof
        assume j: "j < length (x # xs)"
        from le i True j have "key ((x # xs) ! j) \<le> key z"
          by (metis le_less_trans less_imp_le)
        then show ?thesis by (simp only: old [OF j])
      next
        assume "j = length (x # xs)"
        then show ?thesis by (simp only: new)
      qed
    qed
    moreover have "\<forall>j<length (x # xs). key ((x # xs @ [z]) ! j) < key z"
    proof (intro allI impI)
      fix j assume j: "j < length (x # xs)"
      from le i True j have "key ((x # xs) ! j) < key z"
        by (metis le_less_trans)
      then show "key ((x # xs @ [z]) ! j) < key z"
        by (simp only: old [OF j])
    qed
    ultimately show ?thesis using True new
      by (intro exI [of _ "length (x # xs)"]) simp
  next
    case False
    have "\<forall>j<length (x # xs @ [z]). key ((x # xs @ [z]) ! j) \<le> key ?b"
    proof (intro allI impI)
      fix j assume "j < length (x # xs @ [z])"
      then have "j < length (x # xs) \<or> j = length (x # xs)" by auto
      then show "key ((x # xs @ [z]) ! j) \<le> key ?b"
      proof
        assume j: "j < length (x # xs)"
        from le i j have "key ((x # xs) ! j) \<le> key ?b" by metis
        then show ?thesis by (simp only: old [OF j])
      next
        assume "j = length (x # xs)"
        moreover from False have "key z \<le> key ?b" by simp
        ultimately show ?thesis by (simp only: new)
      qed
    qed
    moreover have "\<forall>j<i. key ((x # xs @ [z]) ! j) < key ?b"
    proof (intro allI impI)
      fix j assume "j < i"
      with i have j: "j < length (x # xs)" by simp
      from lt \<open>j < i\<close> i have "key ((x # xs) ! j) < key ?b" by metis
      then show "key ((x # xs @ [z]) ! j) < key ?b"
        by (simp only: old [OF j])
    qed
    moreover from i have "(x # xs @ [z]) ! i = ?b" by (simp only: old [OF i(1)])
    ultimately show ?thesis using False i(1)
      by (intro exI [of _ i]) simp
  qed
qed

lemma max_key_first:
  fixes key :: "'a \<Rightarrow> 'k::linorder"
  assumes "xs \<noteq> []"
  shows "\<exists>i<length xs. max_key key xs = Inr (xs ! i)
           \<and> (\<forall>j<length xs. key (xs ! j) \<le> key (xs ! i))
           \<and> (\<forall>j<i. key (xs ! j) < key (xs ! i))"
proof -
  from assms obtain y ys where xs: "xs = y # ys" by (cases xs) auto
  from foldl_max_first [of y ys key] show ?thesis unfolding xs by auto
qed

lemma print_params_all:
  "set names \<subseteq> fst ` set best_parameters \<Longrightarrow>
     print_params names best_parameters
       = Inr (map (\<lambda>n. Param_line n (the (map_of best_parameters n))) names)"
proof (induction names)
  case Nil
  then show ?case by simp
next
  case (Cons n names)
  then have "n \<in> fst ` set best_parameters" by simp
  then obtain v where "map_of best_parameters n = Some v"
    by (metis map_of_eq_None_iff not_Some_eq)
  with Cons show ?case by simp
qed

theorem grid_search_returns_none_counterexample:
  "grid_search [([(''alpha'', 1 :: nat)], 1 / 2, []), ([(''alpha'', 2)], 3 / 4, []),
                ([(''alpha'', 3)], 3 / 4, [])] (0 :: nat) [(''alpha'', [1, 2, 3])]
     = Inr ([Param_line ''alpha'' 2, Score_line (3 / 4), Results_line 0],
            (None :: ((string \<times> nat) list \<times> rat \<times> nat) option))
   \<and> grid_search [([(''alpha'', 1 :: nat)], 1 / 2, []), ([(''alpha'', 2)], 3 / 4, []),
                ([(''alpha'', 3)], 3 / 4, [])] (0 :: nat) [(''alpha'', [1, 2, 3])]
     \<noteq> Inr ([Param_line ''alpha'' 2, Score_line (3 / 4), Results_line 0],
            Some ([(''alpha'', 2)], 3 / 4, 0))"
  by (simp add: grid_search_def)

text \<open>
  C7, as the code has it: both \<open>grid_search\<close> functions return \<open>None\<close>. What they
  find they print: the parameters, in the sorted order of their names, and the score of
  the combination with the greatest mean score, the first one in the order of the grid
  where several have it; \<^verbatim>\<open>helper_functions.grid_search\<close> prints the results of the
  fit after them.
\<close>

theorem grid_search_prints_first_maximum:
  "grid_scores \<noteq> [] \<Longrightarrow>
   (\<forall>g\<in>set grid_scores. set (map fst parameters) \<subseteq> fst ` set (fst g)) \<Longrightarrow>
     \<exists>i<length grid_scores.
        (\<forall>j<length grid_scores. fst (snd (grid_scores ! j)) \<le> fst (snd (grid_scores ! i)))
      \<and> (\<forall>j<i. fst (snd (grid_scores ! j)) < fst (snd (grid_scores ! i)))
      \<and> grid_search grid_scores cv_results parameters
          = Inr (map (\<lambda>n. Param_line n (the (map_of (fst (grid_scores ! i)) n))) (sort (map fst parameters))
                   @ [Score_line (fst (snd (grid_scores ! i))), Results_line cv_results], None)
      \<and> grid_search_NLPAnalysis grid_scores parameters
          = Inr (map (\<lambda>n. Param_line n (the (map_of (fst (grid_scores ! i)) n))) (sort (map fst parameters))
                   @ [Score_line (fst (snd (grid_scores ! i)))], None)"
proof -
  assume ne: "grid_scores \<noteq> []"
    and keys: "\<forall>g\<in>set grid_scores. set (map fst parameters) \<subseteq> fst ` set (fst g)"
  from max_key_first [OF ne, of "\<lambda>x. fst (snd x)"] obtain i where
    i: "i < length grid_scores"
    and mx: "max_key (\<lambda>x. fst (snd x)) grid_scores = Inr (grid_scores ! i)"
    and le: "\<forall>j<length grid_scores. fst (snd (grid_scores ! j)) \<le> fst (snd (grid_scores ! i))"
    and lt: "\<forall>j<i. fst (snd (grid_scores ! j)) < fst (snd (grid_scores ! i))"
    by blast
  obtain best_parameters score cvs where best: "grid_scores ! i = (best_parameters, score, cvs)"
    by (cases "grid_scores ! i") auto
  from i keys have "set (sort (map fst parameters)) \<subseteq> fst ` set (fst (grid_scores ! i))"
    by simp
  with best have sub: "set (sort (map fst parameters)) \<subseteq> fst ` set best_parameters"
    by simp
  show ?thesis
    using i le lt mx best
    by (intro exI [of _ i]) (simp add: grid_search_def grid_search_NLPAnalysis_def print_params_all [OF sub])
qed

theorem grid_search_prints_first_maximum_witness:
  "grid_search [([(''alpha'', 1 :: nat)], 1 / 2, []), ([(''alpha'', 2)], 3 / 4, []),
                ([(''alpha'', 3)], 3 / 4, [])] (0 :: nat) [(''alpha'', [1, 2, 3])]
     = Inr ([Param_line ''alpha'' 2, Score_line (3 / 4), Results_line 0], (None :: unit option))
   \<and> (grid_search_NLPAnalysis [([(''alpha'', 1 :: nat)], 1 / 2, []), ([(''alpha'', 2)], 3 / 4, []),
                ([(''alpha'', 3)], 3 / 4, [])] [(''alpha'', [1, 2, 3])]
         :: error + (nat, nat) line list \<times> unit option)
     = Inr ([Param_line ''alpha'' 2, Score_line (3 / 4)], None)
   \<and> (1 / 2 :: rat) < 3 / 4"
proof -
  have ne: "[([(''alpha'', 1 :: nat)], 1 / 2, []), ([(''alpha'', 2)], 3 / 4, []),
             ([(''alpha'', 3)], 3 / 4 :: rat, [] :: rat list)] \<noteq> []"
    by simp
  have keys: "\<forall>g\<in>set [([(''alpha'', 1 :: nat)], 1 / 2, []), ([(''alpha'', 2)], 3 / 4, []),
                ([(''alpha'', 3)], 3 / 4 :: rat, [] :: rat list)].
               set (map fst [(''alpha'', [1, 2, 3 :: nat])]) \<subseteq> fst ` set (fst g)"
    by simp
  from grid_search_prints_first_maximum [OF ne keys, of "0 :: nat"]
  show ?thesis
    by (simp add: grid_search_def grid_search_NLPAnalysis_def)
qed

section \<open>The success rate of a label that does not occur\<close>

lemma fracs_loop_keys:
  "fst ` set (fst (fracs_loop (fracs, bound) groups)) = fst ` set fracs \<union> fst ` set groups"
  by (induction "(fracs, bound)" groups arbitrary: fracs bound rule: fracs_loop.induct)
     (auto simp add: Let_def dom_update)

lemma groupby_keys: "fst ` set (groupby labels_pred) = label ` set labels_pred"
  by (auto simp add: groupby_def image_iff)

text \<open>
  C8: for labels and predictions of one length, \<open>success_rates\<close> returns its dictionary
  without an error, and a label that is not among the actual labels has no entry in it,
  so no rate, and not the rate 0.
\<close>

theorem success_rates_absent_label:
  "length labels = length predictions \<Longrightarrow> name \<notin> set labels \<Longrightarrow>
     \<exists>fracs. success_rates labels predictions True = Inr ([], Some fracs)
       \<and> map_of fracs name = None \<and> (name, 0) \<notin> set fracs"
proof -
  assume len: "length labels = length predictions" and absent: "name \<notin> set labels"
  let ?labels_pred =
    "map (\<lambda>(l, p). \<lparr>label = l, predicted = p, success = (p = l)\<rparr>) (zip labels predictions)"
  let ?fracs = "fst (fracs_loop ([], None) (groupby ?labels_pred))"
  have "map label ?labels_pred = map fst (zip labels predictions)"
    by (simp add: comp_def case_prod_beta)
  with len have "label ` set ?labels_pred = set labels"
    by (metis list.set_map map_fst_zip)
  then have "fst ` set ?fracs = set labels"
    by (simp add: fracs_loop_keys groupby_keys)
  with absent have no: "name \<notin> fst ` set ?fracs" by simp
  then have "map_of ?fracs name = None" by (simp add: map_of_eq_None_iff)
  moreover from no have "(name, 0) \<notin> set ?fracs" by force
  moreover from len have "success_rates labels predictions True = Inr ([], Some ?fracs)"
    by (simp add: success_rates_def case_prod_beta)
  ultimately show ?thesis by blast
qed

lemma success_rates_example:
  "success_rates [''b'', ''a'', ''b''] [''b'', ''b'', ''a''] True = Inr ([], Some [(''a'', 0), (''b'', 1 / 2)])"
  by code_simp

theorem success_rates_absent_label_witness:
  "success_rates [''b'', ''a'', ''b''] [''b'', ''b'', ''a''] True = Inr ([], Some [(''a'', 0), (''b'', 1 / 2)])
   \<and> map_of [(''a'', 0 :: rat), (''b'', 1 / 2)] ''c'' = None
   \<and> (''c'', 0) \<notin> set [(''a'', 0 :: rat), (''b'', 1 / 2)]"
  using success_rates_absent_label [of "[''b'', ''a'', ''b'']" "[''b'', ''b'', ''a'']" "''c''"]
  by (simp add: success_rates_example)

end
